theory Spec2Isabelle
  imports Main "HOL-Library.AList"
begin

section \<open>The scenario language of lore: reader, lexer, parser and scene model\<close>

text \<open>
  The development follows \<^verbatim>\<open>src/scenario/parser.ts\<close> and \<^verbatim>\<open>src/scenario/scene.ts\<close>.
  JavaScript numbers are restricted to integers (\<^typ>\<open>int\<close>), strings are character lists,
  a thrown exception is the left injection of a sum, and every method that mutates its
  object returns the updated object. The sums \<^verbatim>\<open>this._pos + k\<close> and \<^verbatim>\<open>this._pos += k\<close> are
  additions of doubles in the source and additions of integers here; the two agree when the
  operands and the sum are integers of magnitude at most \<open>2\<^sup>5\<^sup>3\<close>, which a double holds
  exactly, and a property that depends on the sum beyond a real buffer states that range.
\<close>

subsection \<open>Characters the lexer names\<close>

abbreviation TAB :: char where "TAB \<equiv> CHR 0x09"
abbreviation LF :: char where "LF \<equiv> CHR 0x0A"
abbreviation CR :: char where "CR \<equiv> CHR 0x0D"
abbreviation DQUOTE :: char where "DQUOTE \<equiv> CHR 0x22"
abbreviation SQUOTE :: char where "SQUOTE \<equiv> CHR 0x27"
abbreviation BACKSLASH :: char where "BACKSLASH \<equiv> CHR 0x5C"

subsection \<open>Errors\<close>

text \<open>One constructor per exception class thrown in the sources, carrying the message.\<close>

datatype error = RangeError string | SyntaxError string | Error string

subsection \<open>BufferReader\<close>

record reader =
  source :: string
  pos :: int

definition BufferReader :: "string \<Rightarrow> reader" where
  "BufferReader src = \<lparr>source = src, pos = 0\<rparr>"

text \<open>
  \<^verbatim>\<open>String.prototype.substring\<close>: both indices are clamped to \<open>[0, length]\<close> and swapped
  when the first exceeds the second.
\<close>

definition clamp_index :: "string \<Rightarrow> int \<Rightarrow> nat" where
  "clamp_index s i = nat (min (max i 0) (int (length s)))"

definition substring :: "string \<Rightarrow> int \<Rightarrow> int \<Rightarrow> string" where
  "substring s start endp =
     (let a = clamp_index s start; b = clamp_index s endp;
          lo = min a b; hi = max a b
      in take (hi - lo) (drop lo s))"

text \<open>
  \<^verbatim>\<open>peek\<close> throws when \<open>_pos + k\<close> exceeds the length and otherwise returns the slice; the
  reader is returned as it was received.
\<close>

definition peek :: "int \<Rightarrow> reader \<Rightarrow> (error + string) \<times> reader" where
  "peek k r =
     (let start = pos r; endp = pos r + k
      in if endp > int (length (source r))
         then (Inl (RangeError ''k lies outside source buffer''), r)
         else (Inr (substring (source r) start endp), r))"

text \<open>
  \<^verbatim>\<open>read\<close> calls \<^verbatim>\<open>peek\<close> without awaiting it, advances \<open>_pos\<close> by \<open>k\<close> in every case, and
  then returns the promise: the outcome of \<^verbatim>\<open>peek\<close> (value or rejection) at the old cursor.
  The new cursor is the exact sum; it is the cursor of the source whenever \<open>exact_sum\<close> holds
  of the old cursor and \<open>k\<close>.
\<close>

definition exact_number :: "int \<Rightarrow> bool" where
  "exact_number n \<longleftrightarrow> \<bar>n\<bar> \<le> 2 ^ 53"

definition exact_sum :: "int \<Rightarrow> int \<Rightarrow> bool" where
  "exact_sum a b \<longleftrightarrow> exact_number a \<and> exact_number b \<and> exact_number (a + b)"

definition read :: "int \<Rightarrow> reader \<Rightarrow> (error + string) \<times> reader" where
  "read k r = (case peek k r of (s, r1) \<Rightarrow> (s, r1\<lparr>pos := pos r1 + k\<rparr>))"

definition isEOF :: "reader \<Rightarrow> bool" where
  "isEOF r \<longleftrightarrow> pos r \<ge> int (length (source r))"

subsection \<open>Scene model\<close>

text \<open>
  The classes of \<^verbatim>\<open>scene.ts\<close>, which the parser imports. The second copy of the model
  in the repository gives \<^verbatim>\<open>Branch\<close> a block of steps that no parser method fills; its
  \<^verbatim>\<open>addBranch\<close> and \<^verbatim>\<open>addAuthor\<close> are the same.
\<close>

record Author =
  author_id :: string

record Branch =
  branch_id :: string

text \<open>
  \<^verbatim>\<open>_branches\<close> is a JavaScript \<^verbatim>\<open>Map\<close>: an association list in insertion order, where
  \<^verbatim>\<open>set\<close> replaces the value of a key already present and appends a new key.
\<close>

record Scene =
  scene_id :: string
  authors :: "Author list"
  branches :: "(string \<times> Branch) list"

definition new_Scene :: "string \<Rightarrow> Scene" where
  "new_Scene i = \<lparr>scene_id = i, authors = [], branches = []\<rparr>"

definition addBranch :: "Branch \<Rightarrow> Scene \<Rightarrow> Scene" where
  "addBranch b sc = sc\<lparr>branches := AList.update (branch_id b) b (branches sc)\<rparr>"

definition addAuthor :: "Author \<Rightarrow> Scene \<Rightarrow> Scene" where
  "addAuthor a sc =
     (case find (\<lambda>x. author_id x = author_id a) (authors sc) of
        Some _ \<Rightarrow> sc
      | None \<Rightarrow> sc\<lparr>authors := authors sc @ [a]\<rparr>)"

subsection \<open>Reader facts used for termination\<close>

definition remaining :: "reader \<Rightarrow> nat" where
  "remaining r = nat (int (length (source r)) - pos r)"

lemma peek_state: "peek k r = (x, r1) \<Longrightarrow> r1 = r"
  by (auto simp: peek_def Let_def split: if_splits)

lemma read_state: "read k r = (x, r2) \<Longrightarrow> r2 = r\<lparr>pos := pos r + k\<rparr>"
  by (auto simp: read_def peek_def Let_def split: if_splits)

lemma remaining_step:
  "\<not> isEOF r \<Longrightarrow> remaining (r\<lparr>pos := pos r + 1\<rparr>) < remaining r"
  by (simp add: remaining_def isEOF_def)

lemma read_one_less:
  "\<not> isEOF r \<Longrightarrow> read 1 r = (x, r2) \<Longrightarrow> remaining r2 < remaining r"
  using read_state remaining_step by blast

lemma peek_read_less:
  "\<not> isEOF r \<Longrightarrow> (c, r1) = peek 1 r \<Longrightarrow> (x, r2) = read 1 r1 \<Longrightarrow> remaining r2 < remaining r"
  by (metis peek_state read_one_less)

subsection \<open>Tokens\<close>

datatype TokenType = KEYWORD | COMMENT | IDENTIFIER | STRING | OPEN_BRACE | CLOSE_BRACE

text \<open>The enum's string values, as they appear in interpolated error messages.\<close>

fun type_name :: "TokenType \<Rightarrow> string" where
  "type_name KEYWORD = ''KEYWORD''"
| "type_name COMMENT = ''COMMENT''"
| "type_name IDENTIFIER = ''IDENTIFIER''"
| "type_name STRING = ''STRING''"
| "type_name OPEN_BRACE = ''OPEN_BRACE''"
| "type_name CLOSE_BRACE = ''CLOSE_BRACE''"

record Token =
  tok_type :: TokenType
  tok_value :: string

definition keywords_list :: "string list" where
  "keywords_list = [''author'', ''scene'', ''branch'', ''jump'']"

subsection \<open>Lexer\<close>

text \<open>
  A lexer method takes the reader and returns either the exception it throws or its
  result paired with the reader it leaves behind. The character \<open>c\<close> obtained from
  \<^verbatim>\<open>peek()\<close> is a string, compared with one-character strings as in the source.
\<close>

definition isWhitespace :: "string \<Rightarrow> bool" where
  "isWhitespace c \<longleftrightarrow> c = '' '' \<or> c = [TAB] \<or> c = [LF] \<or> c = [CR]"

function eatWhitespace :: "reader \<Rightarrow> error + reader" where
  "eatWhitespace r =
     (if isEOF r then Inr r
      else case peek 1 r of
             (Inl e, r1) \<Rightarrow> Inl e
           | (Inr c, r1) \<Rightarrow>
               if c = [TAB] \<or> c = '' ''
               then (case read 1 r1 of
                       (Inl e, r2) \<Rightarrow> Inl e
                     | (Inr x, r2) \<Rightarrow> eatWhitespace r2)
               else Inr r1)"
  by pat_completeness auto
termination
  by (relation "measure remaining") (auto intro: peek_read_less)

text \<open>The accumulation loop of \<^verbatim>\<open>comment\<close>, with the string \<open>s\<close> built so far.\<close>

function comment_loop :: "string \<Rightarrow> reader \<Rightarrow> error + (string \<times> reader)" where
  "comment_loop s r =
     (if isEOF r then Inr (s, r)
      else case peek 1 r of
             (Inl e, r1) \<Rightarrow> Inl e
           | (Inr c, r1) \<Rightarrow>
               if c = [CR] \<or> c = [LF] then Inr (s, r1)
               else (case read 1 r1 of
                       (Inl e, r2) \<Rightarrow> Inl e
                     | (Inr x, r2) \<Rightarrow> comment_loop (s @ x) r2))"
  by pat_completeness auto
termination
  by (relation "measure (\<lambda>(s, r). remaining r)") (auto intro: peek_read_less)

definition comment :: "reader \<Rightarrow> error + (Token \<times> reader)" where
  "comment r =
     (case peek 1 r of
        (Inl e, r1) \<Rightarrow> Inl e
      | (Inr c, r1) \<Rightarrow>
          if c \<noteq> ''#'' then Inl (SyntaxError ''Expected #'')
          else (case read 1 r1 of
                  (Inl e, r2) \<Rightarrow> Inl e
                | (Inr x, r2) \<Rightarrow>
                    (case eatWhitespace r2 of
                       Inl e \<Rightarrow> Inl e
                     | Inr r3 \<Rightarrow>
                         (case comment_loop [] r3 of
                            Inl e \<Rightarrow> Inl e
                          | Inr (s, r4) \<Rightarrow> Inr (\<lparr>tok_type = COMMENT, tok_value = s\<rparr>, r4)))))"

text \<open>The accumulation loop of \<^verbatim>\<open>keywordOrIdentifier\<close>.\<close>

function word_loop :: "string \<Rightarrow> reader \<Rightarrow> error + (string \<times> reader)" where
  "word_loop s r =
     (if isEOF r then Inr (s, r)
      else case peek 1 r of
             (Inl e, r1) \<Rightarrow> Inl e
           | (Inr c, r1) \<Rightarrow>
               if isWhitespace c then Inr (s, r1)
               else (case read 1 r1 of
                       (Inl e, r2) \<Rightarrow> Inl e
                     | (Inr x, r2) \<Rightarrow> word_loop (s @ x) r2))"
  by pat_completeness auto
termination
  by (relation "measure (\<lambda>(s, r). remaining r)") (auto intro: peek_read_less)

definition keywordOrIdentifier :: "reader \<Rightarrow> error + (Token \<times> reader)" where
  "keywordOrIdentifier r =
     (case word_loop [] r of
        Inl e \<Rightarrow> Inl e
      | Inr (s, r1) \<Rightarrow>
          if s \<in> set keywords_list
          then Inr (\<lparr>tok_type = KEYWORD, tok_value = s\<rparr>, r1)
          else Inr (\<lparr>tok_type = IDENTIFIER, tok_value = s\<rparr>, r1))"

declare eatWhitespace.simps [simp del] comment_loop.simps [simp del] word_loop.simps [simp del]

lemma read_ok_less: "read 1 r = (Inr x, r2) \<Longrightarrow> remaining r2 < remaining r"
  by (auto simp: read_def peek_def remaining_def Let_def split: if_splits)

lemma eatWhitespace_remaining: "eatWhitespace r = Inr r' \<Longrightarrow> remaining r' \<le> remaining r"
proof (induction r rule: eatWhitespace.induct)
  case (1 r)
  show ?case
  proof (cases "isEOF r")
    case True
    with "1.prems" show ?thesis by (simp add: eatWhitespace.simps)
  next
    case False
    obtain pc r1 where pk: "peek 1 r = (pc, r1)" by (cases "peek 1 r")
    then have r1: "r1 = r" by (rule peek_state)
    show ?thesis
    proof (cases pc)
      case (Inl e)
      with False pk "1.prems" show ?thesis by (simp add: eatWhitespace.simps)
    next
      case (Inr c)
      show ?thesis
      proof (cases "c = [TAB] \<or> c = '' ''")
        case ws: True
        obtain px r2 where rd: "read 1 r1 = (px, r2)" by (cases "read 1 r1")
        show ?thesis
        proof (cases px)
          case (Inl e)
          with False pk Inr ws rd "1.prems" show ?thesis
            by (auto simp: eatWhitespace.simps [of r])
        next
          case px: (Inr x)
          with False pk Inr ws rd "1.prems" have "eatWhitespace r2 = Inr r'"
            by (auto simp: eatWhitespace.simps [of r])
          with "1.IH" [OF False pk [symmetric] Inr ws rd [symmetric] px]
          have "remaining r' \<le> remaining r2" by simp
          moreover from rd px r1 have "remaining r2 < remaining r"
            using read_ok_less by blast
          ultimately show ?thesis by simp
        qed
      next
        case nws: False
        with False pk Inr r1 "1.prems" show ?thesis
          by (auto simp: eatWhitespace.simps [of r])
      qed
    qed
  qed
qed

lemma comment_loop_remaining: "comment_loop s r = Inr (s', r') \<Longrightarrow> remaining r' \<le> remaining r"
  apply (induction s r rule: comment_loop.induct)
  apply (subst (asm) (2) comment_loop.simps)
  apply (auto split: if_splits prod.splits sum.splits dest!: peek_state dest: read_ok_less)
  apply (metis read_ok_less less_imp_le_nat le_trans)
  done

lemma word_loop_remaining: "word_loop s r = Inr (s', r') \<Longrightarrow> remaining r' \<le> remaining r"
  apply (induction s r rule: word_loop.induct)
  apply (subst (asm) (2) word_loop.simps)
  apply (auto split: if_splits prod.splits sum.splits dest!: peek_state dest: read_ok_less)
  apply (metis read_ok_less less_imp_le_nat le_trans)
  done

lemma comment_less: "comment r = Inr (t, r') \<Longrightarrow> remaining r' < remaining r"
  unfolding comment_def
  by (auto split: if_splits prod.splits sum.splits dest!: peek_state
      dest!: read_ok_less eatWhitespace_remaining comment_loop_remaining)

text \<open>
  The first conditional of the body of the loop in \<^verbatim>\<open>stringLiteral\<close>: on a backslash, the
  backslash is read and the character after it is read and appended.
\<close>

definition string_escape :: "string \<Rightarrow> string \<Rightarrow> reader \<Rightarrow> error + (string \<times> reader)" where
  "string_escape c s r =
     (if c = [BACKSLASH]
      then (case read 1 r of
              (Inl e, r1) \<Rightarrow> Inl e
            | (Inr b, r1) \<Rightarrow>
                (case read 1 r1 of
                   (Inl e, r2) \<Rightarrow> Inl e
                 | (Inr x, r2) \<Rightarrow> Inr (s @ x, r2)))
      else Inr (s, r))"

lemma string_escape_remaining:
  "string_escape c s r = Inr (s1, ra) \<Longrightarrow> remaining ra \<le> remaining r"
  unfolding string_escape_def
  by (auto split: if_splits prod.splits sum.splits dest!: read_ok_less)

lemma string_step_less:
  "string_escape c s r = Inr (s1, ra) \<Longrightarrow> read 1 ra = (Inr x, rb) \<Longrightarrow> remaining rb < remaining r"
  by (drule string_escape_remaining, drule read_ok_less) simp

lemma string_step_ws_less:
  "string_escape c s r = Inr (s1, ra) \<Longrightarrow> read 1 ra = (Inr x, rb) \<Longrightarrow> eatWhitespace rb = Inr rc
   \<Longrightarrow> remaining rc < remaining r"
  by (drule string_step_less, assumption, drule eatWhitespace_remaining) simp

function string_loop :: "string \<Rightarrow> reader \<Rightarrow> error + (Token \<times> reader)" where
  "string_loop s r =
     (if isEOF r then Inl (Error ''End of source'')
      else case peek 1 r of
             (Inl e, r1) \<Rightarrow> Inl e
           | (Inr c, r1) \<Rightarrow>
               (case string_escape c s r1 of
                  Inl e \<Rightarrow> Inl e
                | Inr (s1, ra) \<Rightarrow>
                    if c = [DQUOTE]
                    then (case read 1 ra of
                            (Inl e, rb) \<Rightarrow> Inl e
                          | (Inr q, rb) \<Rightarrow> Inr (\<lparr>tok_type = STRING, tok_value = s1\<rparr>, rb))
                    else if c = [CR]
                    then (case read 1 ra of
                            (Inl e, rb) \<Rightarrow> Inl e
                          | (Inr q, rb) \<Rightarrow> string_loop s1 rb)
                    else (case read 1 ra of
                            (Inl e, rb) \<Rightarrow> Inl e
                          | (Inr x, rb) \<Rightarrow>
                              if c = [LF] \<or> c = '' ''
                              then (case eatWhitespace rb of
                                      Inl e \<Rightarrow> Inl e
                                    | Inr rc \<Rightarrow> string_loop (s1 @ x) rc)
                              else string_loop (s1 @ x) rb)))"
  by pat_completeness auto
termination
  apply (relation "measure (\<lambda>(s, r). remaining r)")
      apply simp
     apply (simp, metis peek_state string_step_less)
    apply (simp, metis peek_state string_step_ws_less)
   apply (simp, metis peek_state string_step_less)
  done

declare string_loop.simps [simp del]

definition stringLiteral :: "reader \<Rightarrow> error + (Token \<times> reader)" where
  "stringLiteral r =
     (case peek 1 r of
        (Inl e, r1) \<Rightarrow> Inl e
      | (Inr c, r1) \<Rightarrow>
          if c \<noteq> [DQUOTE] then Inl (SyntaxError (''Expected '' @ [DQUOTE]))
          else (case read 1 r1 of
                  (Inl e, r2) \<Rightarrow> Inl e
                | (Inr q, r2) \<Rightarrow> string_loop [] r2))"

function nextToken :: "reader \<Rightarrow> error + (Token option \<times> reader)" where
  "nextToken r =
     (if isEOF r then Inr (None, r)
      else case peek 1 r of
             (Inl e, r1) \<Rightarrow> Inl e
           | (Inr c, r1) \<Rightarrow>
               if c = ''#''
               then (case comment r1 of
                       Inl e \<Rightarrow> Inl e
                     | Inr (t, r2) \<Rightarrow> nextToken r2)
               else if c = [DQUOTE]
               then (case stringLiteral r1 of
                       Inl e \<Rightarrow> Inl e
                     | Inr (t, r2) \<Rightarrow> Inr (Some t, r2))
               else if c = ''{''
               then (case read 1 r1 of
                       (Inl e, r2) \<Rightarrow> Inl e
                     | (Inr v, r2) \<Rightarrow> Inr (Some \<lparr>tok_type = OPEN_BRACE, tok_value = v\<rparr>, r2))
               else if c = ''}''
               then (case read 1 r1 of
                       (Inl e, r2) \<Rightarrow> Inl e
                     | (Inr v, r2) \<Rightarrow> Inr (Some \<lparr>tok_type = CLOSE_BRACE, tok_value = v\<rparr>, r2))
               else if c = '' '' \<or> c = [TAB] \<or> c = [CR] \<or> c = [LF]
               then (case read 1 r1 of
                       (Inl e, r2) \<Rightarrow> Inl e
                     | (Inr x, r2) \<Rightarrow> nextToken r2)
               else (case keywordOrIdentifier r1 of
                       Inl e \<Rightarrow> Inl e
                     | Inr (t, r2) \<Rightarrow> Inr (Some t, r2)))"
  by pat_completeness auto
termination
  apply (relation "measure remaining")
    apply simp
   apply (simp, metis peek_state comment_less)
  apply (simp, metis peek_state read_ok_less)
  done

declare nextToken.simps [simp del]

lemma string_loop_remaining: "string_loop s r = Inr (t, r') \<Longrightarrow> remaining r' \<le> remaining r"
proof (induction s r rule: string_loop.induct)
  case (1 s r)
  from "1.prems" have ne: "\<not> isEOF r"
    by (subst (asm) string_loop.simps) (simp split: if_splits)
  obtain pc r1 where pk: "peek 1 r = (pc, r1)" by (cases "peek 1 r")
  then have r1: "r1 = r" by (rule peek_state)
  from "1.prems" ne pk obtain c where pc: "pc = Inr c"
    by (subst (asm) string_loop.simps) (cases pc; simp)
  from "1.prems" ne pk pc obtain s1 ra where esc: "string_escape c s r1 = Inr (s1, ra)"
    by (subst (asm) string_loop.simps) (cases "string_escape c s r1"; auto)
  obtain px rb where rd: "read 1 ra = (px, rb)" by (cases "read 1 ra")
  from "1.prems" ne pk pc esc rd obtain x where px: "px = Inr x"
    by (subst (asm) string_loop.simps) (cases px; simp split: if_splits)
  have lt: "remaining rb < remaining r"
    using esc rd px r1 string_step_less by blast
  note IH = "1.IH" [OF ne pk [symmetric] pc esc refl]
  show ?case
  proof (cases "c = [DQUOTE]")
    case True
    with "1.prems" ne pk pc esc rd px have "r' = rb"
      by (subst (asm) string_loop.simps) simp
    with lt show ?thesis by simp
  next
    case ndq: False
    show ?thesis
    proof (cases "c = [CR]")
      case True
      with "1.prems" ne pk pc esc rd px ndq have "string_loop s1 rb = Inr (t, r')"
        by (subst (asm) string_loop.simps) simp
      with IH(1) [OF ndq True rd [symmetric] px] lt show ?thesis by simp
    next
      case ncr: False
      show ?thesis
      proof (cases "c = [LF] \<or> c = '' ''")
        case ws: True
        with "1.prems" ne pk pc esc rd px ndq ncr
        obtain rc where ew: "eatWhitespace rb = Inr rc" and rec: "string_loop (s1 @ x) rc = Inr (t, r')"
          by (subst (asm) string_loop.simps) (cases "eatWhitespace rb"; simp)
        from IH(2) [OF ndq ncr rd [symmetric] px ws ew rec]
        have "remaining r' \<le> remaining rc" .
        with eatWhitespace_remaining [OF ew] lt show ?thesis by simp
      next
        case nws: False
        with "1.prems" ne pk pc esc rd px ndq ncr
        have rec: "string_loop (s1 @ x) rb = Inr (t, r')"
          by (subst (asm) string_loop.simps) simp
        from IH(3) [OF ndq ncr rd [symmetric] px nws rec] lt show ?thesis by simp
      qed
    qed
  qed
qed

lemma stringLiteral_less: "stringLiteral r = Inr (t, r') \<Longrightarrow> remaining r' < remaining r"
  unfolding stringLiteral_def
  by (auto split: if_splits prod.splits sum.splits dest!: peek_state
      dest!: read_ok_less string_loop_remaining)

lemma word_loop_less:
  "\<not> isEOF r \<Longrightarrow> peek 1 r = (Inr c, r1) \<Longrightarrow> \<not> isWhitespace c \<Longrightarrow> word_loop s r = Inr (s', r')
   \<Longrightarrow> remaining r' < remaining r"
  by (subst (asm) word_loop.simps)
     (auto split: prod.splits sum.splits dest!: peek_state read_ok_less word_loop_remaining)

lemma keywordOrIdentifier_less:
  "\<not> isEOF r \<Longrightarrow> peek 1 r = (Inr c, r1) \<Longrightarrow> \<not> isWhitespace c \<Longrightarrow> keywordOrIdentifier r = Inr (t, r')
   \<Longrightarrow> remaining r' < remaining r"
  unfolding keywordOrIdentifier_def
  by (auto split: if_splits prod.splits sum.splits dest: word_loop_less)

lemma nextToken_less: "nextToken r = Inr (Some t, r') \<Longrightarrow> remaining r' < remaining r"
proof (induction r rule: nextToken.induct)
  case (1 r)
  from "1.prems" have ne: "\<not> isEOF r"
    by (subst (asm) nextToken.simps) (simp split: if_splits)
  obtain pc r1 where pk: "peek 1 r = (pc, r1)" by (cases "peek 1 r")
  then have r1: "r1 = r" by (rule peek_state)
  from "1.prems" ne pk obtain c where pc: "pc = Inr c"
    by (subst (asm) nextToken.simps) (cases pc; simp)
  note IH = "1.IH" [OF ne pk [symmetric] pc]
  note unf = "1.prems" [unfolded nextToken.simps [of r], simplified ne pk pc, simplified]
  consider (hash) "c = ''#''" | (dq) "c \<noteq> ''#''" "c = [DQUOTE]"
    | (ob) "c \<noteq> ''#''" "c \<noteq> [DQUOTE]" "c = ''{''"
    | (cb) "c \<noteq> ''#''" "c \<noteq> [DQUOTE]" "c \<noteq> ''{''" "c = ''}''"
    | (ws) "c \<noteq> ''#''" "c \<noteq> [DQUOTE]" "c \<noteq> ''{''" "c \<noteq> ''}''"
           "c = '' '' \<or> c = [TAB] \<or> c = [CR] \<or> c = [LF]"
    | (other) "c \<noteq> ''#''" "c \<noteq> [DQUOTE]" "c \<noteq> ''{''" "c \<noteq> ''}''"
           "\<not> (c = '' '' \<or> c = [TAB] \<or> c = [CR] \<or> c = [LF])"
    by blast
  then show ?case
  proof cases
    case hash
    with unf obtain tc r2 where cm: "comment r1 = Inr (tc, r2)" and rec: "nextToken r2 = Inr (Some t, r')"
      by (cases "comment r1") auto
    from IH(1) [OF hash cm refl rec] comment_less [OF cm] r1 show ?thesis by simp
  next
    case dq
    with unf have "stringLiteral r1 = Inr (t, r')"
      by (cases "stringLiteral r1") auto
    with r1 show ?thesis by (auto dest: stringLiteral_less)
  next
    case ob
    with unf obtain v where "read 1 r1 = (Inr v, r')"
      by (cases "read 1 r1") (auto split: sum.splits)
    with r1 show ?thesis by (auto dest: read_ok_less)
  next
    case cb
    with unf obtain v where "read 1 r1 = (Inr v, r')"
      by (cases "read 1 r1") (auto split: sum.splits)
    with r1 show ?thesis by (auto dest: read_ok_less)
  next
    case ws
    with unf obtain v r2 where rd: "read 1 r1 = (Inr v, r2)" and rec: "nextToken r2 = Inr (Some t, r')"
      by (cases "read 1 r1") (auto split: sum.splits)
    from IH(2) [OF ws(1-5) rd [symmetric] refl rec] read_ok_less [OF rd] r1 show ?thesis by simp
  next
    case other
    with unf have "keywordOrIdentifier r1 = Inr (t, r')"
      by (cases "keywordOrIdentifier r1") auto
    moreover from other(5) have "\<not> isWhitespace c" by (auto simp: isWhitespace_def)
    ultimately show ?thesis
      using keywordOrIdentifier_less [of r c r1 t r'] ne pk pc r1 by simp
  qed
qed


lemma nextToken_remaining: "nextToken r = Inr (tok, r') \<Longrightarrow> remaining r' \<le> remaining r"
proof (cases tok)
  case (Some t)
  assume "nextToken r = Inr (tok, r')"
  with Some show ?thesis by (auto dest: nextToken_less)
next
  case None
  assume "nextToken r = Inr (tok, r')"
  with None have "nextToken r = Inr (None, r')" by simp
  then show ?thesis
  proof (induction r rule: nextToken.induct)
    case (1 r)
    show ?case
    proof (cases "isEOF r")
      case True
      with "1.prems" show ?thesis by (subst (asm) nextToken.simps) simp
    next
      case ne: False
      obtain pc r1 where pk: "peek 1 r = (pc, r1)" by (cases "peek 1 r")
      then have r1: "r1 = r" by (rule peek_state)
      from "1.prems" ne pk obtain c where pc: "pc = Inr c"
        by (subst (asm) nextToken.simps) (cases pc; simp)
      note IH = "1.IH" [OF ne pk [symmetric] pc]
      note unf = "1.prems" [unfolded nextToken.simps [of r], simplified ne pk pc, simplified]
      consider (hash) "c = ''#''"
        | (ws) "c \<noteq> ''#''" "c \<noteq> [DQUOTE]" "c \<noteq> ''{''" "c \<noteq> ''}''"
               "c = '' '' \<or> c = [TAB] \<or> c = [CR] \<or> c = [LF]"
        | (tok) "c \<noteq> ''#''"
               "c = [DQUOTE] \<or> c = ''{'' \<or> c = ''}'' \<or> \<not> (c = '' '' \<or> c = [TAB] \<or> c = [CR] \<or> c = [LF])"
        by blast
      then show ?thesis
      proof cases
        case hash
        with unf obtain tc r2 where cm: "comment r1 = Inr (tc, r2)" and rec: "nextToken r2 = Inr (None, r')"
          by (cases "comment r1") auto
        from IH(1) [OF hash cm refl rec] comment_less [OF cm] r1 show ?thesis by simp
      next
        case ws
        with unf obtain v r2 where rd: "read 1 r1 = (Inr v, r2)" and rec: "nextToken r2 = Inr (None, r')"
          by (cases "read 1 r1") (auto split: sum.splits)
        from IH(2) [OF ws(1-5) rd [symmetric] refl rec] read_ok_less [OF rd] r1 show ?thesis by simp
      next
        case tok
        with unf have False
          by (auto split: if_splits sum.splits prod.splits)
        then show ?thesis ..
      qed
    qed
  qed
qed

subsection \<open>Parser\<close>

text \<open>The text of \<^verbatim>\<open>${token?.type}\<close> in an error message.\<close>

definition type_text :: "Token option \<Rightarrow> string" where
  "type_text tok = (case tok of None \<Rightarrow> ''undefined'' | Some t \<Rightarrow> type_name (tok_type t))"

text \<open>The scanning loop of \<^verbatim>\<open>branch\<close>: when the stream ends the loop is left and the method returns.\<close>

function branch_loop :: "Branch \<Rightarrow> Scene \<Rightarrow> reader \<Rightarrow> error + (Scene \<times> reader)" where
  "branch_loop b sc r =
     (case nextToken r of
        Inl e \<Rightarrow> Inl e
      | Inr (tok, r1) \<Rightarrow>
          (case tok of
             None \<Rightarrow> Inr (sc, r1)
           | Some t \<Rightarrow>
               if tok_type t = CLOSE_BRACE then Inr (addBranch b sc, r1)
               else branch_loop b sc r1))"
  by pat_completeness auto
termination
  by (relation "measure (\<lambda>(b, sc, r). remaining r)") (auto dest: nextToken_less)

declare branch_loop.simps [simp del]

definition branch :: "Scene \<Rightarrow> reader \<Rightarrow> error + (Scene \<times> reader)" where
  "branch sc r =
     (case nextToken r of
        Inl e \<Rightarrow> Inl e
      | Inr (tok, r1) \<Rightarrow>
          if tok = None \<or> tok_type (the tok) \<noteq> IDENTIFIER
          then Inl (SyntaxError (''Expected identifier, got '' @ [SQUOTE] @ type_text tok @ [SQUOTE]))
          else branch_loop \<lparr>branch_id = tok_value (the tok)\<rparr> sc r1)"

text \<open>The scanning loop of \<^verbatim>\<open>author\<close>.\<close>

function author_loop :: "Author \<Rightarrow> reader \<Rightarrow> error + (Author \<times> reader)" where
  "author_loop a r =
     (case nextToken r of
        Inl e \<Rightarrow> Inl e
      | Inr (tok, r1) \<Rightarrow>
          (case tok of
             None \<Rightarrow> Inl (SyntaxError ''Expected CLOSE_BRACE but reached EOF'')
           | Some t \<Rightarrow>
               if tok_type t = CLOSE_BRACE then Inr (a, r1)
               else author_loop a r1))"
  by pat_completeness auto
termination
  by (relation "measure (\<lambda>(a, r). remaining r)") (auto dest: nextToken_less)

declare author_loop.simps [simp del]

definition author :: "reader \<Rightarrow> error + (Author \<times> reader)" where
  "author r =
     (case nextToken r of
        Inl e \<Rightarrow> Inl e
      | Inr (tok, r1) \<Rightarrow>
          if tok = None \<or> tok_type (the tok) \<noteq> IDENTIFIER
          then Inl (SyntaxError (''Expected IDENTIFIER, got '' @ type_text tok))
          else author_loop \<lparr>author_id = tok_value (the tok)\<rparr> r1)"

lemma branch_loop_remaining: "branch_loop b sc r = Inr (sc', r') \<Longrightarrow> remaining r' \<le> remaining r"
proof (induction b sc r rule: branch_loop.induct)
  case (1 b sc r)
  from "1.prems" obtain tok r1 where nt: "nextToken r = Inr (tok, r1)"
    by (subst (asm) branch_loop.simps) (cases "nextToken r"; auto)
  have le: "remaining r1 \<le> remaining r" using nt by (rule nextToken_remaining)
  show ?case
  proof (cases "tok = None \<or> tok_type (the tok) = CLOSE_BRACE")
    case True
    with "1.prems" nt have "r' = r1"
      by (subst (asm) branch_loop.simps) (auto split: option.splits)
    with le show ?thesis by simp
  next
    case False
    then obtain t where t: "tok = Some t" "tok_type t \<noteq> CLOSE_BRACE" by auto
    with "1.prems" nt have "branch_loop b sc r1 = Inr (sc', r')"
      by (subst (asm) branch_loop.simps) simp
    from "1.IH" [OF nt refl t this] le show ?thesis by simp
  qed
qed

lemma branch_remaining: "branch sc r = Inr (sc', r') \<Longrightarrow> remaining r' \<le> remaining r"
  unfolding branch_def
  by (auto split: sum.splits prod.splits if_splits dest!: nextToken_remaining branch_loop_remaining)

lemma author_loop_remaining: "author_loop a r = Inr (a', r') \<Longrightarrow> remaining r' \<le> remaining r"
proof (induction a r rule: author_loop.induct)
  case (1 a r)
  from "1.prems" obtain tok r1 where nt: "nextToken r = Inr (tok, r1)"
    by (subst (asm) author_loop.simps) (cases "nextToken r"; auto)
  have le: "remaining r1 \<le> remaining r" using nt by (rule nextToken_remaining)
  from "1.prems" nt obtain t where t: "tok = Some t"
    by (subst (asm) author_loop.simps) (cases tok; simp)
  show ?case
  proof (cases "tok_type t = CLOSE_BRACE")
    case True
    with "1.prems" nt t have "r' = r1"
      by (subst (asm) author_loop.simps) simp
    with le show ?thesis by simp
  next
    case False
    with "1.prems" nt t have "author_loop a r1 = Inr (a', r')"
      by (subst (asm) author_loop.simps) simp
    from "1.IH" [OF nt refl t False this] le show ?thesis by simp
  qed
qed

lemma author_remaining: "author r = Inr (a, r') \<Longrightarrow> remaining r' \<le> remaining r"
  unfolding author_def
  by (auto split: sum.splits prod.splits if_splits dest!: nextToken_remaining author_loop_remaining)

text \<open>
  The loop of \<^verbatim>\<open>scene\<close>, with the scene under construction and the local list
  \<^verbatim>\<open>authors\<close> of authors still to be attached.
\<close>

function scene_loop :: "Scene \<Rightarrow> Author list \<Rightarrow> reader \<Rightarrow> error + (Scene \<times> reader)" where
  "scene_loop sc pending r =
     (case nextToken r of
        Inl e \<Rightarrow> Inl e
      | Inr (tok, r1) \<Rightarrow>
          (case tok of
             None \<Rightarrow> Inl (SyntaxError ''Expected CLOSE_BRACE but reached EOF'')
           | Some t \<Rightarrow>
               if tok_type t = KEYWORD \<and> tok_value t = ''author''
               then (case author r1 of
                       Inl e \<Rightarrow> Inl e
                     | Inr (a, r2) \<Rightarrow> scene_loop sc (pending @ [a]) r2)
               else if tok_type t = KEYWORD \<and> tok_value t = ''branch''
               then (case branch sc r1 of
                       Inl e \<Rightarrow> Inl e
                     | Inr (sc', r2) \<Rightarrow> scene_loop sc' pending r2)
               else if tok_type t = CLOSE_BRACE
               then Inr (foldl (\<lambda>s a. addAuthor a s) sc pending, r1)
               else scene_loop sc pending r1))"
  by pat_completeness auto
termination
  apply (relation "measure (\<lambda>(sc, pending, r). remaining r)")
     apply simp
    apply (simp, metis nextToken_less author_remaining order_le_less_trans)
   apply (simp, metis nextToken_less branch_remaining order_le_less_trans)
  apply (simp, metis nextToken_less)
  done

declare scene_loop.simps [simp del]

definition scene :: "reader \<Rightarrow> error + (Scene \<times> reader)" where
  "scene r =
     (case nextToken r of
        Inl e \<Rightarrow> Inl e
      | Inr (tok, r1) \<Rightarrow>
          if tok = None \<or> tok_type (the tok) \<noteq> IDENTIFIER
          then Inl (SyntaxError (''Expected IDENTIFIER, got '' @ type_text tok))
          else (case nextToken r1 of
                  Inl e \<Rightarrow> Inl e
                | Inr (tok2, r2) \<Rightarrow>
                    if tok2 = None \<or> tok_type (the tok2) \<noteq> OPEN_BRACE
                    then Inl (SyntaxError (''Expected OPEN_BRACE, got '' @ type_text tok2))
                    else scene_loop (new_Scene (tok_value (the tok))) [] r2))"

lemma scene_loop_remaining: "scene_loop sc pending r = Inr (sc', r') \<Longrightarrow> remaining r' \<le> remaining r"
proof (induction sc pending r rule: scene_loop.induct)
  case (1 sc pending r)
  from "1.prems" obtain tok r1 where nt: "nextToken r = Inr (tok, r1)"
    by (subst (asm) scene_loop.simps) (cases "nextToken r"; auto)
  have le: "remaining r1 \<le> remaining r" using nt by (rule nextToken_remaining)
  from "1.prems" nt obtain t where t: "tok = Some t"
    by (subst (asm) scene_loop.simps) (cases tok; simp)
  note IH = "1.IH" [OF nt refl t]
  note unf = "1.prems" [unfolded scene_loop.simps [of sc pending r], simplified nt t, simplified]
  consider (au) "tok_type t = KEYWORD \<and> tok_value t = ''author''"
    | (br) "\<not> (tok_type t = KEYWORD \<and> tok_value t = ''author'')"
           "tok_type t = KEYWORD \<and> tok_value t = ''branch''"
    | (cl) "\<not> (tok_type t = KEYWORD \<and> tok_value t = ''author'')"
           "\<not> (tok_type t = KEYWORD \<and> tok_value t = ''branch'')" "tok_type t = CLOSE_BRACE"
    | (other) "\<not> (tok_type t = KEYWORD \<and> tok_value t = ''author'')"
           "\<not> (tok_type t = KEYWORD \<and> tok_value t = ''branch'')" "tok_type t \<noteq> CLOSE_BRACE"
    by blast
  then show ?case
  proof cases
    case au
    with unf obtain a r2 where a: "author r1 = Inr (a, r2)"
      and rec: "scene_loop sc (pending @ [a]) r2 = Inr (sc', r')"
      by (cases "author r1") auto
    from IH(1) [OF au a refl rec] author_remaining [OF a] le show ?thesis by simp
  next
    case br
    with unf obtain sc2 r2 where b: "branch sc r1 = Inr (sc2, r2)"
      and rec: "scene_loop sc2 pending r2 = Inr (sc', r')"
      by (cases "branch sc r1") auto
    from IH(2) [OF br b refl rec] branch_remaining [OF b] le show ?thesis by simp
  next
    case cl
    with unf have "r' = r1" by auto
    with le show ?thesis by simp
  next
    case other
    with unf have rec: "scene_loop sc pending r1 = Inr (sc', r')" by auto
    from IH(3) [OF other rec] le show ?thesis by simp
  qed
qed

lemma scene_remaining: "scene r = Inr (sc, r') \<Longrightarrow> remaining r' \<le> remaining r"
  unfolding scene_def
  by (auto split: sum.splits prod.splits if_splits
      dest!: nextToken_remaining scene_loop_remaining)

text \<open>
  The loop of \<^verbatim>\<open>parse\<close>, with the lists \<^verbatim>\<open>scenes\<close> and \<^verbatim>\<open>authors\<close>; at the end of the
  stream every author is added to every scene, authors in the outer loop.
\<close>

function parse_loop :: "Scene list \<Rightarrow> Author list \<Rightarrow> reader \<Rightarrow> error + Scene list" where
  "parse_loop scenes top_authors r =
     (case nextToken r of
        Inl e \<Rightarrow> Inl e
      | Inr (tok, r1) \<Rightarrow>
          (case tok of
             None \<Rightarrow> Inr (foldl (\<lambda>scs a. map (addAuthor a) scs) scenes top_authors)
           | Some t \<Rightarrow>
               if tok_type t = KEYWORD
               then (if tok_value t = ''author''
                     then (case author r1 of
                             Inl e \<Rightarrow> Inl e
                           | Inr (a, r2) \<Rightarrow> parse_loop scenes (top_authors @ [a]) r2)
                     else if tok_value t = ''scene''
                     then (case scene r1 of
                             Inl e \<Rightarrow> Inl e
                           | Inr (sc, r2) \<Rightarrow> parse_loop (scenes @ [sc]) top_authors r2)
                     else Inl (Error (''Expected keyword '' @ [SQUOTE] @ ''author'' @ [SQUOTE]
                                      @ '' or '' @ [SQUOTE] @ ''scene'' @ [SQUOTE] @ '', got ''
                                      @ [SQUOTE] @ tok_value t @ [SQUOTE])))
               else Inl (Error (''Unexpected token type '' @ [SQUOTE] @ type_name (tok_type t)
                                @ [SQUOTE]))))"
  by pat_completeness auto
termination
  apply (relation "measure (\<lambda>(scenes, top_authors, r). remaining r)")
    apply simp
   apply (simp, metis nextToken_less author_remaining order_le_less_trans)
  apply (simp, metis nextToken_less scene_remaining order_le_less_trans)
  done

declare parse_loop.simps [simp del]

definition parse :: "reader \<Rightarrow> error + Scene list" where
  "parse r = parse_loop [] [] r"


subsection \<open>Classes of sources and reader states used in the properties\<close>

text \<open>
  Sources made of whitespace and comments only: every character is a space, a tab, a
  carriage return or a newline, or it is a \<open>#\<close>, which opens a comment that runs up to the
  next carriage return or newline, or to the end of the source.
\<close>

function ws_comments :: "string \<Rightarrow> bool" where
  "ws_comments [] = True"
| "ws_comments (c # cs) =
     (if c = CHR '' '' \<or> c = TAB \<or> c = CR \<or> c = LF then ws_comments cs
      else if c = CHR ''#'' then ws_comments (dropWhile (\<lambda>d. d \<noteq> CR \<and> d \<noteq> LF) cs)
      else False)"
  by pat_completeness auto
termination
  by (relation "measure length") (auto simp: less_Suc_eq_le length_dropWhile_le)

text \<open>The reader \<open>r\<close> is over \<open>src\<close> and has the suffix \<open>xs\<close> of it still to read.\<close>

definition unread :: "string \<Rightarrow> reader \<Rightarrow> string \<Rightarrow> bool" where
  "unread src r xs \<longleftrightarrow>
     source r = src \<and> 0 \<le> pos r \<and> pos r \<le> int (length src) \<and> drop (nat (pos r)) src = xs"

section \<open>Properties\<close>

subsection \<open>Reader\<close>

lemma substring_slice:
  "0 \<le> p \<Longrightarrow> 0 \<le> k \<Longrightarrow> p + k \<le> int (length s)
   \<Longrightarrow> substring s p (p + k) = take (nat k) (drop (nat p) s)"
  by (simp add: substring_def clamp_index_def Let_def min_def max_def nat_add_distrib)

text \<open>
  C4. When the cursor \<open>p\<close> is a position of the buffer and \<open>k\<close> is a count of characters with
  \<open>p + k\<close> not beyond the length, \<^verbatim>\<open>read(k)\<close> returns the \<open>k\<close> characters that start at \<open>p\<close>,
  which is the result of \<^verbatim>\<open>peek(k)\<close> in the same state, and leaves the cursor at \<open>p + k\<close>.
\<close>

theorem read_returns_current_slice:
  assumes "0 \<le> pos r" and "0 \<le> k" and "pos r + k \<le> int (length (source r))"
  shows "fst (read k r) = Inr (take (nat k) (drop (nat (pos r)) (source r)))
       \<and> length (take (nat k) (drop (nat (pos r)) (source r))) = nat k
       \<and> fst (read k r) = fst (peek k r)
       \<and> snd (read k r) = r\<lparr>pos := pos r + k\<rparr>"
proof -
  from assms have "peek k r = (Inr (take (nat k) (drop (nat (pos r)) (source r))), r)"
    by (simp add: peek_def Let_def substring_slice)
  moreover from assms have "length (take (nat k) (drop (nat (pos r)) (source r))) = nat k"
    by simp
  ultimately show ?thesis by (simp add: read_def)
qed

theorem read_returns_current_slice_witness:
  "fst (read 2 \<lparr>source = ''hello'', pos = 1\<rparr>) = Inr ''el''
   \<and> snd (read 2 \<lparr>source = ''hello'', pos = 1\<rparr>) = \<lparr>source = ''hello'', pos = 3\<rparr>"
  using read_returns_current_slice [of "\<lparr>source = ''hello'', pos = 1\<rparr>" 2]
  by simp

text \<open>
  C5. When \<open>p + k\<close> exceeds the length, and the cursor \<open>p\<close>, the count \<open>k\<close> and their sum are
  integers of magnitude at most \<open>2\<^sup>5\<^sup>3\<close> (so that the addition of the source is the exact one),
  \<^verbatim>\<open>read(k)\<close> fails with the bounds error, the cursor has nevertheless moved to \<open>p + k\<close>, and
  \<^verbatim>\<open>isEOF()\<close> holds afterwards.
\<close>

theorem read_error_advances:
  assumes "pos r + k > int (length (source r))"
    and "exact_sum (pos r) k"
  shows "fst (read k r) = Inl (RangeError ''k lies outside source buffer'')
       \<and> snd (read k r) = r\<lparr>pos := pos r + k\<rparr>
       \<and> isEOF (snd (read k r))"
  using assms(1) by (simp add: read_def peek_def Let_def isEOF_def)

theorem read_error_advances_witness:
  "fst (read 2 (BufferReader ''a'')) = Inl (RangeError ''k lies outside source buffer'')
   \<and> pos (snd (read 2 (BufferReader ''a''))) = 2
   \<and> isEOF (snd (read 2 (BufferReader ''a'')))"
proof -
  have over: "pos (BufferReader ''a'') + 2 > int (length (source (BufferReader ''a'')))"
    by (simp add: BufferReader_def)
  have exact: "exact_sum (pos (BufferReader ''a'')) 2"
    by (simp add: BufferReader_def exact_sum_def exact_number_def)
  show ?thesis
    using read_error_advances [OF over exact]
    by (simp add: BufferReader_def isEOF_def)
qed

text \<open>
  C8. \<^verbatim>\<open>peek(k)\<close> leaves the reader, and so its cursor, as it was, whether it returns or
  throws, and a second \<^verbatim>\<open>peek(k)\<close> right after the first gives the same result.
\<close>

theorem peek_keeps_reader:
  "snd (peek k r) = r
   \<and> pos (snd (peek k r)) = pos r
   \<and> fst (peek k (snd (peek k r))) = fst (peek k r)"
  by (simp add: peek_def Let_def)

text \<open>
  C9. \<^verbatim>\<open>peek(k)\<close> fails with the bounds error whenever the cursor plus \<open>k\<close> exceeds the length
  of the buffer; in particular on a fresh reader when \<open>k\<close> exceeds the length.
\<close>

theorem peek_out_of_range:
  "(pos r + k > int (length (source r))
      \<longrightarrow> fst (peek k r) = Inl (RangeError ''k lies outside source buffer''))
   \<and> (n > int (length src)
      \<longrightarrow> fst (peek n (BufferReader src)) = Inl (RangeError ''k lies outside source buffer''))"
  by (simp add: peek_def Let_def BufferReader_def)

theorem peek_out_of_range_witness:
  "fst (peek 1 \<lparr>source = ''abc'', pos = 3\<rparr>) = Inl (RangeError ''k lies outside source buffer'')
   \<and> fst (peek 4 (BufferReader ''abc'')) = Inl (RangeError ''k lies outside source buffer'')"
  using peek_out_of_range [where r = "\<lparr>source = ''abc'', pos = 3\<rparr>" and k = 1 and n = 4 and src = "''abc''"]
  by simp

subsection \<open>Scene model\<close>

lemma find_author_present:
  "author_id a \<in> author_id ` set xs \<Longrightarrow> find (\<lambda>x. author_id x = author_id a) xs \<noteq> None"
  by (auto simp: find_None_iff)

text \<open>
  C10. \<^verbatim>\<open>addAuthor\<close> leaves the scene unchanged when an author with the same id is already
  attached, so adding an author (or another author with the same id) a second time changes
  nothing.
\<close>

theorem addAuthor_idempotent:
  "(author_id a \<in> author_id ` set (authors sc) \<longrightarrow> addAuthor a sc = sc)
   \<and> (author_id b = author_id a \<longrightarrow> addAuthor b (addAuthor a sc) = addAuthor a sc)
   \<and> addAuthor a (addAuthor a sc) = addAuthor a sc"
proof -
  have present: "addAuthor x s = s" if "author_id x \<in> author_id ` set (authors s)" for x s
    using find_author_present [OF that] by (auto simp: addAuthor_def split: option.splits)
  have after: "author_id a \<in> author_id ` set (authors (addAuthor a sc))"
  proof (cases "find (\<lambda>x. author_id x = author_id a) (authors sc)")
    case None
    then show ?thesis by (simp add: addAuthor_def)
  next
    case (Some x)
    then have "find (\<lambda>x. author_id x = author_id a) (authors sc) \<noteq> None" by simp
    then obtain y where y: "y \<in> set (authors sc)" "author_id y = author_id a"
      by (auto simp: find_None_iff)
    from Some have "addAuthor a sc = sc" by (simp add: addAuthor_def)
    moreover from y have "author_id a \<in> author_id ` set (authors sc)" by (metis imageI)
    ultimately show ?thesis by simp
  qed
  show ?thesis
    using present [of a sc] present [of a "addAuthor a sc"] present [of b "addAuthor a sc"] after
    by auto
qed

theorem addAuthor_idempotent_witness:
  "addAuthor \<lparr>author_id = ''a''\<rparr> \<lparr>scene_id = ''s'', authors = [\<lparr>author_id = ''a''\<rparr>], branches = []\<rparr>
     = \<lparr>scene_id = ''s'', authors = [\<lparr>author_id = ''a''\<rparr>], branches = []\<rparr>
   \<and> addAuthor \<lparr>author_id = ''a''\<rparr> (addAuthor \<lparr>author_id = ''a''\<rparr> (new_Scene ''s''))
     = addAuthor \<lparr>author_id = ''a''\<rparr> (new_Scene ''s'')"
  using addAuthor_idempotent [of "\<lparr>author_id = ''a''\<rparr>"
      "\<lparr>scene_id = ''s'', authors = [\<lparr>author_id = ''a''\<rparr>], branches = []\<rparr>" "\<lparr>author_id = ''a''\<rparr>"]
    addAuthor_idempotent [of "\<lparr>author_id = ''a''\<rparr>" "new_Scene ''s''" "\<lparr>author_id = ''a''\<rparr>"]
  by simp


subsection \<open>Lexer: string literals\<close>

text \<open>
  The example of the specification, \<^verbatim>\<open>"abc\"def"\<close>: the escaped quote is kept, the backslash
  is dropped. The character after the escaped one (here \<open>d\<close>) is appended by the unconditional
  \<^verbatim>\<open>s += await this._reader.read()\<close> of the same iteration.
\<close>

lemma stringLiteral_spec_example:
  "stringLiteral (BufferReader ([DQUOTE] @ ''abc'' @ [BACKSLASH, DQUOTE] @ ''def'' @ [DQUOTE]))
   = Inr (\<lparr>tok_type = STRING, tok_value = ''abc'' @ [DQUOTE] @ ''def''\<rparr>,
          \<lparr>source = [DQUOTE] @ ''abc'' @ [BACKSLASH, DQUOTE] @ ''def'' @ [DQUOTE], pos = 10\<rparr>)"
  by code_simp

text \<open>
  C3. The claim fails on the code: in the literal \<^verbatim>\<open>"a\""\<close> the escape \<^verbatim>\<open>\"\<close> is followed by the
  closing quote. After the escape there is no \<^verbatim>\<open>continue\<close>, so the same iteration reads the
  closing quote as an ordinary character; the loop then meets the end of the source and
  throws, where the claim promises a STRING token with value \<^verbatim>\<open>a"\<close>.
\<close>

theorem stringLiteral_escape_then_quote:
  "stringLiteral (BufferReader [DQUOTE, CHR ''a'', BACKSLASH, DQUOTE, DQUOTE])
     = Inl (Error ''End of source'')
   \<and> nextToken (BufferReader [DQUOTE, CHR ''a'', BACKSLASH, DQUOTE, DQUOTE])
     = Inl (Error ''End of source'')"
  by code_simp

subsection \<open>Parser: end of the stream inside a block\<close>

lemma author_loop_eof:
  "nextToken r = Inr (None, r1)
   \<Longrightarrow> author_loop a r = Inl (SyntaxError ''Expected CLOSE_BRACE but reached EOF'')"
  by (subst author_loop.simps) simp

lemma scene_loop_eof:
  "nextToken r = Inr (None, r1)
   \<Longrightarrow> scene_loop sc pending r = Inl (SyntaxError ''Expected CLOSE_BRACE but reached EOF'')"
  by (subst scene_loop.simps) simp

lemma branch_loop_eof:
  "nextToken r = Inr (None, r1) \<Longrightarrow> branch_loop b sc r = Inr (sc, r1)"
  by (subst branch_loop.simps) simp

text \<open>
  C2. The claim fails on the code for \<^verbatim>\<open>branch\<close>: while parsing \<^verbatim>\<open>scene s { branch b {\<close>,
  \<^verbatim>\<open>branch\<close> is entered with the cursor after the keyword (position 16); it reads \<open>b\<close> and
  \<open>{\<close>, meets the end of the stream and returns normally, the scene unchanged. The error
  that \<^verbatim>\<open>parse\<close> reports is raised afterwards, by the loop of \<^verbatim>\<open>scene\<close>.
\<close>

theorem branch_unterminated_returns:
  "branch (new_Scene ''s'') \<lparr>source = ''scene s { branch b {'', pos = 16\<rparr>
     = Inr (new_Scene ''s'', \<lparr>source = ''scene s { branch b {'', pos = 20\<rparr>)
   \<and> parse (BufferReader ''scene s { branch b {'')
     = Inl (SyntaxError ''Expected CLOSE_BRACE but reached EOF'')"
  by code_simp

subsection \<open>Parser: tokens ignored in a scene body\<close>

text \<open>
  C7. In the loop of \<^verbatim>\<open>scene\<close>, a token that is neither the keyword \<^verbatim>\<open>author\<close>, nor the keyword
  \<^verbatim>\<open>branch\<close>, nor a closing brace changes neither the scene nor the pending authors and
  raises nothing: the loop goes on from the reader left behind by the lexer.
\<close>

theorem scene_loop_discards_token:
  assumes "nextToken r = Inr (Some t, r1)"
    and "\<not> (tok_type t = KEYWORD \<and> tok_value t = ''author'')"
    and "\<not> (tok_type t = KEYWORD \<and> tok_value t = ''branch'')"
    and "tok_type t \<noteq> CLOSE_BRACE"
  shows "scene_loop sc pending r = scene_loop sc pending r1"
  using assms by (subst scene_loop.simps) auto

theorem scene_loop_discards_token_witness:
  "scene_loop (new_Scene ''s'') [] (BufferReader ''{ jump x }'')
     = scene_loop (new_Scene ''s'') [] \<lparr>source = ''{ jump x }'', pos = 1\<rparr>
   \<and> scene_loop (new_Scene ''s'') [] \<lparr>source = ''{ jump x }'', pos = 1\<rparr>
     = scene_loop (new_Scene ''s'') [] \<lparr>source = ''{ jump x }'', pos = 6\<rparr>
   \<and> scene_loop (new_Scene ''s'') [] \<lparr>source = ''{ jump x }'', pos = 6\<rparr>
     = scene_loop (new_Scene ''s'') [] \<lparr>source = ''{ jump x }'', pos = 8\<rparr>"
proof -
  have ob: "nextToken (BufferReader ''{ jump x }'')
      = Inr (Some \<lparr>tok_type = OPEN_BRACE, tok_value = ''{''\<rparr>, \<lparr>source = ''{ jump x }'', pos = 1\<rparr>)"
    by code_simp
  have kw: "nextToken \<lparr>source = ''{ jump x }'', pos = 1\<rparr>
      = Inr (Some \<lparr>tok_type = KEYWORD, tok_value = ''jump''\<rparr>, \<lparr>source = ''{ jump x }'', pos = 6\<rparr>)"
    by code_simp
  have ident: "nextToken \<lparr>source = ''{ jump x }'', pos = 6\<rparr>
      = Inr (Some \<lparr>tok_type = IDENTIFIER, tok_value = ''x''\<rparr>, \<lparr>source = ''{ jump x }'', pos = 8\<rparr>)"
    by code_simp
  show ?thesis
    using scene_loop_discards_token [OF ob, of "new_Scene ''s''" "[]"]
      scene_loop_discards_token [OF kw, of "new_Scene ''s''" "[]"]
      scene_loop_discards_token [OF ident, of "new_Scene ''s''" "[]"]
    by simp
qed

subsection \<open>Parser: the round trip of the specification\<close>

text \<open>
  C1 fails on its own source: \<^verbatim>\<open>author\<close> stops at the first closing brace, so \<^verbatim>\<open>branch b {\<close> is
  read as the body of the inner author; the second brace closes the scene and the third one
  reaches \<^verbatim>\<open>parse\<close>, which rejects it.
\<close>

theorem parse_nested_branch_rejected:
  "parse (BufferReader ''author a {} scene s { author a { branch b { } } }'')
   = Inl (Error (''Unexpected token type '' @ [SQUOTE] @ ''CLOSE_BRACE'' @ [SQUOTE]))"
  by code_simp

text \<open>
  C1, as amended. With the branch beside the author of the scene,
  \<^verbatim>\<open>author a {} scene s { author a { } branch b { } }\<close> parses to exactly one scene \<open>s\<close> with
  exactly one author \<open>a\<close> (the top-level \<open>a\<close> is broadcast onto \<open>s\<close> and not duplicated) and
  exactly one branch \<open>b\<close>; with the branch inside the braces of the author, as in the
  original source, \<^verbatim>\<open>scene\<close> returns the scene \<open>s\<close> with the author \<open>a\<close> and no branch, and
  \<^verbatim>\<open>parse\<close> raises an error at the brace that follows.
\<close>

theorem parse_round_trip:
  "parse (BufferReader ''author a {} scene s { author a { } branch b { } }'')
     = Inr [\<lparr>scene_id = ''s'', authors = [\<lparr>author_id = ''a''\<rparr>],
            branches = [(''b'', \<lparr>branch_id = ''b''\<rparr>)]\<rparr>]
   \<and> scene \<lparr>source = ''author a {} scene s { author a { branch b { } } }'', pos = 17\<rparr>
     = Inr (\<lparr>scene_id = ''s'', authors = [\<lparr>author_id = ''a''\<rparr>], branches = []\<rparr>,
            \<lparr>source = ''author a {} scene s { author a { branch b { } } }'', pos = 47\<rparr>)
   \<and> isl (parse (BufferReader ''author a {} scene s { author a { branch b { } } }''))"
  by code_simp


subsection \<open>Lexer: sources without tokens\<close>

lemma unread_Nil: "unread src r [] \<Longrightarrow> isEOF r \<and> r = \<lparr>source = src, pos = int (length src)\<rparr>"
  by (cases r) (auto simp: unread_def isEOF_def)

lemma unread_Cons:
  assumes "unread src r (c # cs)"
  shows "\<not> isEOF r" and "peek 1 r = (Inr [c], r)"
    and "read 1 r = (Inr [c], r\<lparr>pos := pos r + 1\<rparr>)"
    and "unread src (r\<lparr>pos := pos r + 1\<rparr>) cs"
proof -
  from assms have src: "source r = src" and p0: "0 \<le> pos r" and d: "drop (nat (pos r)) src = c # cs"
    by (auto simp: unread_def)
  from d have lt: "nat (pos r) < length src"
    by (metis drop_all list.distinct(1) not_le)
  with p0 show "\<not> isEOF r" by (simp add: isEOF_def src)
  from d lt have hd: "src ! nat (pos r) = c" and tl: "drop (Suc (nat (pos r))) src = cs"
    by (simp_all add: Cons_nth_drop_Suc [symmetric])
  from lt p0 have "pos r + 1 \<le> int (length src)" by linarith
  with p0 d have sub: "substring src (pos r) (pos r + 1) = [c]"
    by (simp add: substring_slice)
  from lt p0 show pk: "peek 1 r = (Inr [c], r)"
    by (simp add: peek_def Let_def src sub)
  then show "read 1 r = (Inr [c], r\<lparr>pos := pos r + 1\<rparr>)"
    by (simp add: read_def)
  from lt p0 tl show "unread src (r\<lparr>pos := pos r + 1\<rparr>) cs"
    by (simp add: unread_def src nat_add_distrib)
qed

lemma eatWhitespace_unread:
  "unread src r xs \<Longrightarrow>
   \<exists>r'. eatWhitespace r = Inr r' \<and> unread src r' (dropWhile (\<lambda>d. d = TAB \<or> d = CHR '' '') xs)"
proof (induction xs arbitrary: r)
  case Nil
  then show ?case using unread_Nil [of src r] by (subst eatWhitespace.simps) auto
next
  case (Cons c cs)
  note u = unread_Cons [OF Cons.prems]
  show ?case
  proof (cases "c = TAB \<or> c = CHR '' ''")
    case True
    from Cons.IH [OF u(4)] obtain r' where
      "eatWhitespace (r\<lparr>pos := pos r + 1\<rparr>) = Inr r'"
      "unread src r' (dropWhile (\<lambda>d. d = TAB \<or> d = CHR '' '') cs)" by blast
    with True u show ?thesis by (subst eatWhitespace.simps) auto
  next
    case False
    with u Cons.prems show ?thesis by (subst eatWhitespace.simps) auto
  qed
qed

lemma comment_loop_unread:
  "unread src r xs \<Longrightarrow>
   \<exists>s' r'. comment_loop s r = Inr (s', r') \<and> unread src r' (dropWhile (\<lambda>d. d \<noteq> CR \<and> d \<noteq> LF) xs)"
proof (induction xs arbitrary: r s)
  case Nil
  then show ?case using unread_Nil [of src r] by (subst comment_loop.simps) auto
next
  case (Cons c cs)
  note u = unread_Cons [OF Cons.prems]
  show ?case
  proof (cases "c = CR \<or> c = LF")
    case True
    with u Cons.prems show ?thesis by (subst comment_loop.simps) auto
  next
    case False
    from Cons.IH [OF u(4), of "s @ [c]"] obtain s' r' where
      "comment_loop (s @ [c]) (r\<lparr>pos := pos r + 1\<rparr>) = Inr (s', r')"
      "unread src r' (dropWhile (\<lambda>d. d \<noteq> CR \<and> d \<noteq> LF) cs)" by blast
    with False u show ?thesis by (subst comment_loop.simps) auto
  qed
qed

lemma dropWhile_line_after_blanks:
  "dropWhile (\<lambda>d. d \<noteq> CR \<and> d \<noteq> LF) (dropWhile (\<lambda>d. d = TAB \<or> d = CHR '' '') xs)
   = dropWhile (\<lambda>d. d \<noteq> CR \<and> d \<noteq> LF) xs"
  by (induction xs) auto

lemma comment_unread:
  assumes "unread src r (CHR ''#'' # cs)"
  shows "\<exists>t r'. comment r = Inr (t, r') \<and> unread src r' (dropWhile (\<lambda>d. d \<noteq> CR \<and> d \<noteq> LF) cs)"
proof -
  note u = unread_Cons [OF assms]
  from eatWhitespace_unread [OF u(4)] obtain r3 where
    ew: "eatWhitespace (r\<lparr>pos := pos r + 1\<rparr>) = Inr r3"
    and u3: "unread src r3 (dropWhile (\<lambda>d. d = TAB \<or> d = CHR '' '') cs)" by blast
  from comment_loop_unread [OF u3, of "[]"] obtain s' r4 where
    cl: "comment_loop [] r3 = Inr (s', r4)"
    and u4: "unread src r4 (dropWhile (\<lambda>d. d \<noteq> CR \<and> d \<noteq> LF) cs)"
    by (auto simp: dropWhile_line_after_blanks)
  from u ew cl have "comment r = Inr (\<lparr>tok_type = COMMENT, tok_value = s'\<rparr>, r4)"
    by (simp add: comment_def)
  with u4 show ?thesis by blast
qed

lemma nextToken_ws_comments:
  "ws_comments xs \<Longrightarrow> unread src r xs \<Longrightarrow>
   nextToken r = Inr (None, \<lparr>source = src, pos = int (length src)\<rparr>)"
proof (induction xs arbitrary: r rule: ws_comments.induct)
  case 1
  then show ?case using unread_Nil [of src r] by (subst nextToken.simps) auto
next
  case (2 c cs)
  note u = unread_Cons [OF "2.prems"(2)]
  show ?case
  proof (cases "c = CHR '' '' \<or> c = TAB \<or> c = CR \<or> c = LF")
    case True
    with "2.prems"(1) have "ws_comments cs" by simp
    from "2.IH"(1) [OF True this u(4)]
    have "nextToken (r\<lparr>pos := pos r + 1\<rparr>) = Inr (None, \<lparr>source = src, pos = int (length src)\<rparr>)" .
    with True u show ?thesis by (subst nextToken.simps) auto
  next
    case False
    with "2.prems"(1) have hash: "c = CHR ''#''"
      and rest: "ws_comments (dropWhile (\<lambda>d. d \<noteq> CR \<and> d \<noteq> LF) cs)"
      by (auto split: if_splits)
    from comment_unread [of src r cs] "2.prems"(2) hash obtain t r' where
      cm: "comment r = Inr (t, r')"
      and u': "unread src r' (dropWhile (\<lambda>d. d \<noteq> CR \<and> d \<noteq> LF) cs)" by blast
    from "2.IH"(2) [OF False hash rest u']
    have "nextToken r' = Inr (None, \<lparr>source = src, pos = int (length src)\<rparr>)" .
    with hash u cm show ?thesis by (subst nextToken.simps) auto
  qed
qed

lemma unread_fresh: "unread src (BufferReader src) src"
  by (simp add: unread_def BufferReader_def)

lemma unread_end: "unread src \<lparr>source = src, pos = int (length src)\<rparr> []"
  by (simp add: unread_def)

text \<open>
  C6. On a source made of whitespace and comments only, the first call of \<^verbatim>\<open>nextToken\<close>
  raises nothing and returns the end-of-stream marker with the reader at the end of the
  source; a call in that state returns the marker again and leaves the reader there, so
  every later call does the same and no token is ever produced.
\<close>

theorem nextToken_whitespace_comments_only:
  assumes "ws_comments src"
  shows "nextToken (BufferReader src) = Inr (None, \<lparr>source = src, pos = int (length src)\<rparr>)
       \<and> nextToken \<lparr>source = src, pos = int (length src)\<rparr>
           = Inr (None, \<lparr>source = src, pos = int (length src)\<rparr>)"
proof
  show "nextToken (BufferReader src) = Inr (None, \<lparr>source = src, pos = int (length src)\<rparr>)"
    using assms unread_fresh by (rule nextToken_ws_comments)
  have "ws_comments []" by simp
  then show "nextToken \<lparr>source = src, pos = int (length src)\<rparr>
      = Inr (None, \<lparr>source = src, pos = int (length src)\<rparr>)"
    using unread_end by (rule nextToken_ws_comments)
qed

theorem nextToken_whitespace_comments_only_witness:
  "ws_comments ([TAB] @ ''# a note '' @ [CR, LF] @ ''  #x'')
   \<and> nextToken (BufferReader ([TAB] @ ''# a note '' @ [CR, LF] @ ''  #x''))
       = Inr (None, \<lparr>source = [TAB] @ ''# a note '' @ [CR, LF] @ ''  #x'', pos = 16\<rparr>)"
proof -
  have h: "ws_comments ([TAB] @ ''# a note '' @ [CR, LF] @ ''  #x'')" by simp
  show ?thesis
    using h nextToken_whitespace_comments_only [OF h] by simp
qed


end
